theory Spec2Isabelle
  imports Main
begin

section \<open>Strings and the library functions the shim calls\<close>

text \<open>
  A Go \<^verbatim>\<open>string\<close> is a sequence of bytes; \<^typ>\<open>string\<close> is a list of
  \<^typ>\<open>char\<close>, and a \<^typ>\<open>char\<close> is one byte. \<^verbatim>\<open>len\<close> is \<^const>\<open>length\<close>,
  \<^verbatim>\<open>s[i]\<close> is \<open>s ! i\<close> (every read below is guarded by a bound check, as in the
  source), \<^verbatim>\<open>s[:i]\<close> is \<open>take i s\<close> and \<^verbatim>\<open>s[i:]\<close> is \<open>drop i s\<close>.
\<close>

abbreviation squote :: char where "squote \<equiv> CHR 0x27"
abbreviation backtick :: char where "backtick \<equiv> CHR 0x60"
abbreviation qmark :: char where "qmark \<equiv> CHR ''?''"
abbreviation lbracket :: char where "lbracket \<equiv> CHR ''[''"
abbreviation rbracket :: char where "rbracket \<equiv> CHR '']''"

text \<open>
  \<^verbatim>\<open>strconv.Itoa\<close> on a non-negative \<^verbatim>\<open>int\<close>: the decimal digits, most
  significant first, no leading zero. The only caller passes \<^verbatim>\<open>paramIndex\<close>, which
  starts at 1 and grows by one per placeholder, so it stays below the length of the
  statement plus two (lemma \<open>paramIndex_bound\<close>) and never reaches the 64-bit limit; it is
  a \<^typ>\<open>nat\<close> here.
\<close>

definition digit :: "nat \<Rightarrow> char" where
  "digit d = ''0123456789'' ! d"

fun Itoa :: "nat \<Rightarrow> string" where
  "Itoa n = (if n < 10 then [digit n] else Itoa (n div 10) @ [digit (n mod 10)])"

declare Itoa.simps [simp del]

text \<open>
  \<^verbatim>\<open>strings.ToLower\<close>, \<^verbatim>\<open>strings.TrimSpace\<close> and the \<^verbatim>\<open>regexp\<close> package
  are Unicode-aware, but on a statement made of ASCII bytes only they take the byte-wise
  path modelled here: \<^verbatim>\<open>ToLower\<close> adds \<^verbatim>\<open>'a' - 'A'\<close> to the bytes
  \<^verbatim>\<open>'A'..'Z'\<close>, \<^verbatim>\<open>TrimSpace\<close> moves \<^verbatim>\<open>start\<close> and \<^verbatim>\<open>stop\<close> over the six
  bytes of its \<^verbatim>\<open>asciiSpace\<close> table. Beyond ASCII the library decodes UTF-8 (a
  lower-cased rune may have another byte length), so the theorems about the rewriter
  and the injector are stated for ASCII statements, \<open>isASCII q\<close>.
\<close>

definition isASCII :: "string \<Rightarrow> bool" where
  "isASCII s = (\<forall>c \<in> set s. (of_char c :: nat) < 128)"

definition lowerByte :: "char \<Rightarrow> char" where
  "lowerByte c =
     (if (65::nat) \<le> of_char c \<and> (of_char c :: nat) \<le> 90
      then char_of ((of_char c :: nat) + 32) else c)"

definition ToLower :: "string \<Rightarrow> string" where
  "ToLower s = map lowerByte s"

definition asciiSpace :: "char \<Rightarrow> bool" where
  "asciiSpace c = (c \<in> set [CHR 0x09, CHR 0x0A, CHR 0x0B, CHR 0x0C, CHR 0x0D, CHR 0x20])"

definition TrimSpace :: "string \<Rightarrow> string" where
  "TrimSpace s = rev (dropWhile asciiSpace (rev (dropWhile asciiSpace s)))"

definition HasPrefix :: "string \<Rightarrow> string \<Rightarrow> bool" where
  "HasPrefix s prefix = (length prefix \<le> length s \<and> take (length prefix) s = prefix)"

text \<open>
  \<^verbatim>\<open>strings.Index\<close> returns the index of the first occurrence, or \<^verbatim>\<open>-1\<close>; the
  model returns \<open>None\<close> for \<^verbatim>\<open>-1\<close>. \<^verbatim>\<open>strings.Contains\<close> is
  \<^verbatim>\<open>Index(s, substr) >= 0\<close>.
\<close>

fun Index :: "string \<Rightarrow> string \<Rightarrow> nat option" where
  "Index [] substr = (if substr = [] then Some 0 else None)"
| "Index (c # cs) substr =
     (if HasPrefix (c # cs) substr then Some 0 else map_option Suc (Index cs substr))"

definition Contains :: "string \<Rightarrow> string \<Rightarrow> bool" where
  "Contains s substr = (Index s substr \<noteq> None)"

section \<open>The quote and placeholder translator\<close>

text \<open>
  \<^verbatim>\<open>translate\<close> keeps a \<^verbatim>\<open>strings.Builder\<close>, two flags, the placeholder
  counter and the loop index. The record holds exactly these; \<open>body\<close> is one
  iteration of the \<^verbatim>\<open>for\<close> loop, the post-statement \<^verbatim>\<open>i++\<close> included (a
  \<^verbatim>\<open>continue\<close> runs it too, so the escaped-quote branch advances by two).
\<close>

record scan_state =
  b :: string
  openBracket :: bool
  inString :: bool
  paramIndex :: nat
  i :: nat

definition WriteByte :: "char \<Rightarrow> scan_state \<Rightarrow> scan_state" where
  "WriteByte c s = s\<lparr>b := b s @ [c]\<rparr>"

definition WriteString :: "string \<Rightarrow> scan_state \<Rightarrow> scan_state" where
  "WriteString t s = s\<lparr>b := b s @ t\<rparr>"

definition next_i :: "scan_state \<Rightarrow> scan_state" where
  "next_i s = s\<lparr>i := i s + 1\<rparr>"

definition body :: "string \<Rightarrow> scan_state \<Rightarrow> scan_state" where
  "body query s =
     (let c = query ! i s in
      if c = squote then
        (let s1 = WriteByte c s in
         if inString s1 then
           (if i s1 + 1 < length query \<and> query ! (i s1 + 1) = squote
            then next_i (next_i (WriteByte squote s1))
            else next_i (s1\<lparr>inString := False\<rparr>))
         else next_i (s1\<lparr>inString := True\<rparr>))
      else if c = backtick then
        (if inString s then next_i (WriteByte c s)
         else
           (let s1 = (if openBracket s then WriteByte lbracket s else WriteByte rbracket s)
            in next_i (s1\<lparr>openBracket := \<not> openBracket s1\<rparr>)))
      else if c = qmark then
        (if inString s then next_i (WriteByte c s)
         else
           (let s1 = WriteByte (CHR ''@'') s;
                s2 = WriteByte (CHR ''p'') s1;
                s3 = WriteString (Itoa (paramIndex s2)) s2
            in next_i (s3\<lparr>paramIndex := paramIndex s3 + 1\<rparr>)))
      else next_i (WriteByte c s))"

function loop :: "string \<Rightarrow> scan_state \<Rightarrow> scan_state" where
  "loop query s = (if i s < length query then loop query (body query s) else s)"
  by pat_completeness auto
termination
proof (relation "measure (\<lambda>(query, s). length query - i s)")
  show "wf (measure (\<lambda>(query, s). length query - i s))"
    by simp
next
  fix query :: string and s :: scan_state
  assume "i s < length query"
  moreover have "i s < i (body query s)"
    by (simp add: body_def Let_def WriteByte_def WriteString_def next_i_def)
  ultimately show "((query, body query s), (query, s)) \<in> measure (\<lambda>(query, s). length query - i s)"
    by simp
qed

declare loop.simps [simp del]

definition init :: scan_state where
  "init = \<lparr>b = [], openBracket = True, inString = False, paramIndex = 1, i = 0\<rparr>"

definition translate :: "string \<Rightarrow> string" where
  "translate query = b (loop query init)"

text \<open>The states the loop goes through: the initial one, and one more per iteration.\<close>

inductive reachable :: "string \<Rightarrow> scan_state \<Rightarrow> bool" for query :: string where
  reach_init: "reachable query init"
| reach_body: "reachable query s \<Longrightarrow> i s < length query \<Longrightarrow> reachable query (body query s)"

text \<open>
  The same scan as a recursion over the remaining bytes, with the builder's growth as
  the result: \<open>loop\<close> computes it (lemma \<open>loop_scan\<close>), and induction over a list is
  easier than over an index.
\<close>

fun scan :: "bool \<Rightarrow> bool \<Rightarrow> nat \<Rightarrow> string \<Rightarrow> string" where
  "scan ob ins n [] = []"
| "scan ob ins n (c # cs) =
     (if c = squote then
        (if ins then
           (case cs of
              [] \<Rightarrow> c # scan ob False n cs
            | d # ds \<Rightarrow> if d = squote then c # d # scan ob True n ds else c # scan ob False n cs)
         else c # scan ob True n cs)
      else if c = backtick then
        (if ins then c # scan ob ins n cs
         else (if ob then lbracket else rbracket) # scan (\<not> ob) ins n cs)
      else if c = qmark then
        (if ins then c # scan ob ins n cs
         else ''@p'' @ Itoa n @ scan ob ins (Suc n) cs)
      else c # scan ob ins n cs)"

subsection \<open>What the specification says of the translator\<close>

text \<open>
  The specification speaks of characters inside and outside single-quoted string
  literals. With the doubled quote as the only escape, a character that is not itself
  a quote lies inside a literal exactly when an odd number of quotes precedes it:
  \<open>in_literal p\<close> says so of the text \<open>p\<close> read so far, without any scanner state.
  \<open>outside_positions x q\<close> lists, left to right, the positions of \<open>q\<close> that hold the
  byte \<open>x\<close> outside every literal, and \<open>count_out x q\<close> counts them.

  \<open>piece p c\<close> is what the specification wants in the output for a byte \<open>c\<close> that
  follows the text \<open>p\<close>: the next ordinal placeholder for a \<^verbatim>\<open>?\<close> outside a
  literal, the next bracket for a back-tick outside a literal, the byte itself
  otherwise. \<open>render p cs\<close> joins the pieces of the bytes \<open>cs\<close> that follow \<open>p\<close>.
\<close>

definition quotes :: "string \<Rightarrow> nat" where
  "quotes p = length (filter (\<lambda>c. c = squote) p)"

definition in_literal :: "string \<Rightarrow> bool" where
  "in_literal p = odd (quotes p)"

definition outside_positions :: "char \<Rightarrow> string \<Rightarrow> nat list" where
  "outside_positions x q = filter (\<lambda>j. q ! j = x \<and> \<not> in_literal (take j q)) [0..<length q]"

definition count_out :: "char \<Rightarrow> string \<Rightarrow> nat" where
  "count_out x q = length (outside_positions x q)"

definition piece :: "string \<Rightarrow> char \<Rightarrow> string" where
  "piece p c =
     (if c = qmark \<and> \<not> in_literal p then ''@p'' @ Itoa (Suc (count_out qmark p))
      else if c = backtick \<and> \<not> in_literal p
           then (if even (count_out backtick p) then [lbracket] else [rbracket])
      else [c])"

fun render :: "string \<Rightarrow> string \<Rightarrow> string" where
  "render p [] = []"
| "render p (c # cs) = piece p c @ render (p @ [c]) cs"



section \<open>The output-clause injector\<close>

text \<open>
  The slices \<^verbatim>\<open>q[:idx]\<close> and \<^verbatim>\<open>q[idx:]\<close> index the statement \<^verbatim>\<open>q\<close> as it
  was passed in, while \<^verbatim>\<open>idx\<close> was found in \<^verbatim>\<open>lower\<close>, the lower-cased
  \<^emph>\<open>trimmed\<close> statement. On ASCII input \<^verbatim>\<open>idx\<close> is at most the length of
  \<^verbatim>\<open>q\<close> (lemma \<open>injector_index_in_range\<close> below), so the slices are in range and
  \<open>take\<close> and \<open>drop\<close> are what Go computes.
\<close>

definition maybeAddOutputClause :: "string \<Rightarrow> string" where
  "maybeAddOutputClause q =
     (let lower = ToLower (TrimSpace q) in
      if \<not> HasPrefix lower ''insert into'' then q
      else if Contains lower '' output '' then q
      else (case Index lower '' values'' of
              None \<Rightarrow> q
            | Some idx \<Rightarrow> take idx q @ '' OUTPUT INSERTED.[id]'' @ drop idx q))"

section \<open>The limit/offset rewriter\<close>

text \<open>
  The two patterns are \<^verbatim>\<open>(?i)\s+LIMIT\s+(\d+)\s*$\<close> and
  \<^verbatim>\<open>(?i)\s+LIMIT\s+(\d+)\s+OFFSET\s+(\d+)\s*$\<close>. In Go's syntax \<^verbatim>\<open>\s\<close> is one of
  tab, newline, form feed, carriage return and space (not the vertical tab that
  \<^verbatim>\<open>TrimSpace\<close> also removes), \<^verbatim>\<open>\d\<close> is \<^verbatim>\<open>0-9\<close>, and \<^verbatim>\<open>$\<close> without the
  \<^verbatim>\<open>m\<close> flag is the end of the text.

  \<open>kw_num kw r\<close> matches \<^verbatim>\<open>\s+KW\s+(\d+)\<close> at the start of \<open>r\<close> and returns the
  captured digits and the rest. Every repetition takes the longest run: the element
  after \<^verbatim>\<open>\s+\<close> is a letter or a digit, the one after \<^verbatim>\<open>\d+\<close> is white space or
  the end, so giving back part of a run cannot turn a failure into a match.
  \<open>FindStringSubmatch\<close> tries the start positions from the left, as the regexp
  engine's leftmost match does; both patterns end in \<^verbatim>\<open>$\<close>, so the matched text
  \<^verbatim>\<open>m[0]\<close> is the whole suffix from the start position.
\<close>

definition reSpace :: "char \<Rightarrow> bool" where
  "reSpace c = (c \<in> set [CHR 0x09, CHR 0x0A, CHR 0x0C, CHR 0x0D, CHR 0x20])"

definition reDigit :: "char \<Rightarrow> bool" where
  "reDigit c = (c \<in> set ''0123456789'')"

definition kw_num :: "string \<Rightarrow> string \<Rightarrow> (string \<times> string) option" where
  "kw_num kw r =
     (let r1 = dropWhile reSpace r;
          r2 = drop (length kw) r1;
          r3 = dropWhile reSpace r2
      in if takeWhile reSpace r \<noteq> [] \<and> ToLower (take (length kw) r1) = kw \<and>
            takeWhile reSpace r2 \<noteq> [] \<and> takeWhile reDigit r3 \<noteq> []
         then Some (takeWhile reDigit r3, dropWhile reDigit r3) else None)"

definition limitOnly_at :: "string \<Rightarrow> string option" where
  "limitOnly_at r =
     (case kw_num ''limit'' r of
        None \<Rightarrow> None
      | Some (n, r') \<Rightarrow> if dropWhile reSpace r' = [] then Some n else None)"

definition limitOffset_at :: "string \<Rightarrow> (string \<times> string) option" where
  "limitOffset_at r =
     (case kw_num ''limit'' r of
        None \<Rightarrow> None
      | Some (n, r') \<Rightarrow>
          (case kw_num ''offset'' r' of
             None \<Rightarrow> None
           | Some (m, r'') \<Rightarrow> if dropWhile reSpace r'' = [] then Some (n, m) else None))"

fun FindStringSubmatch :: "(string \<Rightarrow> 'a option) \<Rightarrow> string \<Rightarrow> (string \<times> 'a) option" where
  "FindStringSubmatch re [] = map_option (\<lambda>caps. ([], caps)) (re [])"
| "FindStringSubmatch re (c # cs) =
     (case re (c # cs) of
        Some caps \<Rightarrow> Some (c # cs, caps)
      | None \<Rightarrow> FindStringSubmatch re cs)"

definition transformLimitQuery :: "string \<Rightarrow> string" where
  "transformLimitQuery query =
     (let trimmed = TrimSpace query in
      case FindStringSubmatch limitOffset_at trimmed of
        Some (m0, limit, offset) \<Rightarrow>
          (let base = TrimSpace (take (length trimmed - length m0) trimmed);
               lower = ToLower base;
               base' = (if \<not> Contains lower '' order by ''
                        then base @ '' ORDER BY (SELECT NULL)'' else base)
           in base' @ '' OFFSET '' @ offset @ '' ROWS FETCH NEXT '' @ limit @ '' ROWS ONLY'')
      | None \<Rightarrow>
          (case FindStringSubmatch limitOnly_at trimmed of
             Some (m0, limit) \<Rightarrow>
               (let base = TrimSpace (take (length trimmed - length m0) trimmed);
                    lower = ToLower base
                in if Contains lower '' order by ''
                   then base @ '' OFFSET 0 ROWS FETCH NEXT '' @ limit @ '' ROWS ONLY''
                   else (case Index (ToLower base) ''select'' of
                           Some idx \<Rightarrow>
                             (let insertPos = idx + length ''select''
                              in take insertPos base @ '' TOP '' @ limit @ drop insertPos base)
                         | None \<Rightarrow> query))
           | None \<Rightarrow> query))"

subsection \<open>What the specification says of the rewriter\<close>





section \<open>The driver and transaction wrappers\<close>

text \<open>
  A \<^verbatim>\<open>dialect.Driver\<close> value is a reference to an object, or \<^verbatim>\<open>nil\<close>. The
  objects of this package are the two wrapper structs, each holding its embedded field;
  they live in a heap with a bump allocator, so that \<^verbatim>\<open>&quoteFixDriver{Driver: d}\<close>
  is an allocation one can see. The wrapped drivers and transactions belong to the
  caller: what they answer to \<^verbatim>\<open>Dialect()\<close> and which optional interfaces their
  dynamic type satisfies is the \<open>world\<close>.
\<close>

type_synonym ref = nat

datatype object = QuoteFixDriver ref | QuoteFixTx ref

record heap =
  objects :: "ref \<rightharpoonup> object"
  fresh :: ref

definition new :: "object \<Rightarrow> heap \<Rightarrow> heap \<times> ref" where
  "new obj h = (h\<lparr>objects := (objects h)(fresh h \<mapsto> obj), fresh := fresh h + 1\<rparr>, fresh h)"

record world =
  Dialect :: "ref \<Rightarrow> string"
  implementsExecContext :: "ref \<Rightarrow> bool"
  implementsQueryContext :: "ref \<Rightarrow> bool"

definition newQuoteFixDriver :: "world \<Rightarrow> ref option \<Rightarrow> heap \<Rightarrow> heap \<times> ref option" where
  "newQuoteFixDriver W d h =
     (case d of
        None \<Rightarrow> (h, d)
      | Some r \<Rightarrow>
          (let dialectName = ToLower (Dialect W r) in
           if dialectName \<noteq> ''mssql'' \<and> dialectName \<noteq> ''sqlserver'' then (h, d)
           else (let (h', w) = new (QuoteFixDriver r) h in (h', Some w))))"

definition WrapMSSQLQuoteFix :: "world \<Rightarrow> ref option \<Rightarrow> heap \<Rightarrow> heap \<times> ref option" where
  "WrapMSSQLQuoteFix W d h = newQuoteFixDriver W d h"

text \<open>
  A method of a wrapper ends in one call of a method of the wrapped object. The model
  returns that call: its receiver, the operation called, the statement text, the argument list
  and the destination (\<^verbatim>\<open>v\<close> of the caller, or the local \<^verbatim>\<open>res\<close> or
  \<^verbatim>\<open>rows\<close> of the fall-back paths). The result and the error of the call are handed
  back to the caller as they are. The first parameter of each function is the embedded
  field, \<^verbatim>\<open>d.Driver\<close> or \<^verbatim>\<open>t.Tx\<close>.
\<close>

datatype driver_method = Exec | ExecContext | Query | QueryContext

datatype 'v dest = Caller 'v | LocalRes | LocalRows | NoDest

record ('a, 'v) call =
  receiver :: ref
  called :: driver_method
  text_sent :: string
  args_sent :: "'a list"
  dest_sent :: "'v dest"

definition quoteFixDriver_Exec :: "ref \<Rightarrow> string \<Rightarrow> 'a list \<Rightarrow> 'v \<Rightarrow> ('a, 'v) call" where
  "quoteFixDriver_Exec drv query args v =
     \<lparr>receiver = drv, called = Exec, text_sent = transformLimitQuery (translate query),
      args_sent = args, dest_sent = Caller v\<rparr>"

definition quoteFixDriver_ExecContext :: "world \<Rightarrow> ref \<Rightarrow> string \<Rightarrow> 'a list \<Rightarrow> ('a, 'v) call" where
  "quoteFixDriver_ExecContext W drv query args =
     (if implementsExecContext W drv
      then \<lparr>receiver = drv, called = ExecContext,
            text_sent = transformLimitQuery (translate query), args_sent = args, dest_sent = NoDest\<rparr>
      else \<lparr>receiver = drv, called = Exec,
            text_sent = transformLimitQuery (translate query), args_sent = args, dest_sent = LocalRes\<rparr>)"

definition quoteFixDriver_Query :: "ref \<Rightarrow> string \<Rightarrow> 'a list \<Rightarrow> 'v \<Rightarrow> ('a, 'v) call" where
  "quoteFixDriver_Query drv query args v =
     \<lparr>receiver = drv, called = Query,
      text_sent = maybeAddOutputClause (transformLimitQuery (translate query)),
      args_sent = args, dest_sent = Caller v\<rparr>"

definition quoteFixDriver_QueryContext :: "world \<Rightarrow> ref \<Rightarrow> string \<Rightarrow> 'a list \<Rightarrow> ('a, 'v) call" where
  "quoteFixDriver_QueryContext W drv query args =
     (let translated = maybeAddOutputClause (transformLimitQuery (translate query)) in
      if implementsQueryContext W drv
      then \<lparr>receiver = drv, called = QueryContext, text_sent = translated,
            args_sent = args, dest_sent = NoDest\<rparr>
      else \<lparr>receiver = drv, called = Query, text_sent = translated,
            args_sent = args, dest_sent = LocalRows\<rparr>)"

definition quoteFixTx_Exec :: "ref \<Rightarrow> string \<Rightarrow> 'a list \<Rightarrow> 'v \<Rightarrow> ('a, 'v) call" where
  "quoteFixTx_Exec tx query args v =
     \<lparr>receiver = tx, called = Exec, text_sent = transformLimitQuery (translate query),
      args_sent = args, dest_sent = Caller v\<rparr>"

definition quoteFixTx_Query :: "ref \<Rightarrow> string \<Rightarrow> 'a list \<Rightarrow> 'v \<Rightarrow> ('a, 'v) call" where
  "quoteFixTx_Query tx query args v =
     \<lparr>receiver = tx, called = Query,
      text_sent = maybeAddOutputClause (transformLimitQuery (translate query)),
      args_sent = args, dest_sent = Caller v\<rparr>"

text \<open>
  \<^verbatim>\<open>Tx\<close> and \<^verbatim>\<open>BeginTx\<close> hand the wrapped driver's error back, or wrap the
  transaction it returned. \<open>inner\<close> is the result of the wrapped driver's
  \<^verbatim>\<open>Tx\<close>, \<open>inner_begin\<close> that of its \<^verbatim>\<open>BeginTx\<close> when its dynamic type has
  one.
\<close>

definition quoteFixDriver_Tx :: "'e + ref \<Rightarrow> heap \<Rightarrow> heap \<times> ('e + ref)" where
  "quoteFixDriver_Tx inner h =
     (case inner of
        Inl err \<Rightarrow> (h, Inl err)
      | Inr tx \<Rightarrow> (let (h', w) = new (QuoteFixTx tx) h in (h', Inr w)))"

definition quoteFixDriver_BeginTx ::
    "('e + ref) option \<Rightarrow> 'e + ref \<Rightarrow> heap \<Rightarrow> heap \<times> ('e + ref)" where
  "quoteFixDriver_BeginTx inner_begin inner h =
     (case inner_begin of
        Some (Inl err) \<Rightarrow> (h, Inl err)
      | Some (Inr tx) \<Rightarrow> (let (h', w) = new (QuoteFixTx tx) h in (h', Inr w))
      | None \<Rightarrow> quoteFixDriver_Tx inner h)"

text \<open>The six execution and query operations under one name, for statements about all of them.\<close>

datatype operation =
  DriverExec | DriverExecContext | DriverQuery | DriverQueryContext | TxExec | TxQuery

definition forwarded :: "world \<Rightarrow> operation \<Rightarrow> ref \<Rightarrow> string \<Rightarrow> 'a list \<Rightarrow> 'v \<Rightarrow> ('a, 'v) call" where
  "forwarded W op target query args v =
     (case op of
        DriverExec \<Rightarrow> quoteFixDriver_Exec target query args v
      | DriverExecContext \<Rightarrow> quoteFixDriver_ExecContext W target query args
      | DriverQuery \<Rightarrow> quoteFixDriver_Query target query args v
      | DriverQueryContext \<Rightarrow> quoteFixDriver_QueryContext W target query args
      | TxExec \<Rightarrow> quoteFixTx_Exec target query args v
      | TxQuery \<Rightarrow> quoteFixTx_Query target query args v)"

definition output_path :: "operation \<Rightarrow> bool" where
  "output_path op = (op = DriverQuery \<or> op = DriverQueryContext \<or> op = TxQuery)"

section \<open>Properties of the translator\<close>

lemma body_scan:
  assumes "i s < length query"
  shows "i (body query s) \<le> length query \<and>
         b (body query s) @ scan (openBracket (body query s)) (inString (body query s))
             (paramIndex (body query s)) (drop (i (body query s)) query)
         = b s @ scan (openBracket s) (inString s) (paramIndex s) (drop (i s) query)"
proof -
  have dr: "drop (i s) query = query ! i s # drop (Suc (i s)) query"
    using assms by (simp add: Cons_nth_drop_Suc)
  show ?thesis
  proof (cases "Suc (i s) < length query")
    case True
    then have dr2: "drop (Suc (i s)) query = query ! Suc (i s) # drop (Suc (Suc (i s))) query"
      by (simp add: Cons_nth_drop_Suc)
    show ?thesis
      using assms True
      by (simp add: dr dr2 body_def Let_def WriteByte_def WriteString_def next_i_def)
  next
    case False
    then have dr2: "drop (Suc (i s)) query = []"
      by simp
    show ?thesis
      using assms False
      by (simp add: dr dr2 body_def Let_def WriteByte_def WriteString_def next_i_def)
  qed
qed

lemma loop_scan:
  "i s \<le> length query \<Longrightarrow>
   b (loop query s) = b s @ scan (openBracket s) (inString s) (paramIndex s) (drop (i s) query)"
proof (induction query s rule: loop.induct)
  case (1 query s)
  show ?case
  proof (cases "i s < length query")
    case False
    with "1.prems" show ?thesis by (simp add: loop.simps [of query s])
  next
    case True
    have "b (loop query s) = b (loop query (body query s))"
      using True by (simp add: loop.simps [of query s])
    also have "\<dots> = b (body query s) @ scan (openBracket (body query s)) (inString (body query s))
             (paramIndex (body query s)) (drop (i (body query s)) query)"
      using "1.IH" [OF True] body_scan [OF True] by simp
    also have "\<dots> = b s @ scan (openBracket s) (inString s) (paramIndex s) (drop (i s) query)"
      using body_scan [OF True] by simp
    finally show ?thesis .
  qed
qed

lemma translate_scan: "translate query = scan True False 1 query"
  using loop_scan [of init query] by (simp add: translate_def init_def)


lemma quotes_snoc: "quotes (p @ [c]) = (if c = squote then Suc (quotes p) else quotes p)"
  by (simp add: quotes_def)

lemma in_literal_snoc:
  "in_literal (p @ [c]) = (if c = squote then \<not> in_literal p else in_literal p)"
  by (simp add: in_literal_def quotes_snoc)

lemma outside_positions_snoc:
  "outside_positions x (p @ [c]) =
     outside_positions x p @ (if c = x \<and> \<not> in_literal p then [length p] else [])"
proof -
  have "filter (\<lambda>j. (p @ [c]) ! j = x \<and> \<not> in_literal (take j (p @ [c]))) [0..<length p]
        = filter (\<lambda>j. p ! j = x \<and> \<not> in_literal (take j p)) [0..<length p]"
    by (rule filter_cong) (auto simp: nth_append)
  then show ?thesis
    by (simp add: outside_positions_def)
qed

lemma count_out_snoc:
  "count_out x (p @ [c]) = (if c = x \<and> \<not> in_literal p then Suc (count_out x p) else count_out x p)"
  by (simp add: count_out_def outside_positions_snoc)

lemma scan_render:
  "ob = even (count_out backtick p) \<Longrightarrow> ins = in_literal p \<Longrightarrow> n = Suc (count_out qmark p) \<Longrightarrow>
   scan ob ins n cs = render p cs"
proof (induction "length cs" arbitrary: ob ins n cs p rule: less_induct)
  case less
  show ?case
  proof (cases cs)
    case Nil
    then show ?thesis by simp
  next
    case (Cons c cs')
    show ?thesis
    proof (cases "c = squote \<and> ins \<and> (\<exists>ds. cs' = squote # ds)")
      case True
      then obtain ds where cs': "cs' = squote # ds" by blast
      have pp: "p @ [squote, squote] = (p @ [squote]) @ [squote]" by simp
      have "scan ob True n ds = render (p @ [squote, squote]) ds"
      proof (rule less.hyps)
        show "length ds < length cs"
          using Cons cs' by simp
        show "ob = even (count_out backtick (p @ [squote, squote]))"
          using less.prems(1) by (simp only: pp count_out_snoc) simp
        show "True = in_literal (p @ [squote, squote])"
          using less.prems(2) True by (simp only: pp in_literal_snoc) simp
        show "n = Suc (count_out qmark (p @ [squote, squote]))"
          using less.prems(3) by (simp only: pp count_out_snoc) simp
      qed
      then show ?thesis
        using True Cons cs' by (simp add: piece_def)
    next
      case False
      have step: "scan ob ins n (c # cs') =
          (if c = squote then c # scan ob (\<not> ins) n cs'
           else if c = backtick then
             (if ins then c # scan ob ins n cs'
              else (if ob then lbracket else rbracket) # scan (\<not> ob) ins n cs')
           else if c = qmark then
             (if ins then c # scan ob ins n cs' else ''@p'' @ Itoa n @ scan ob ins (Suc n) cs')
           else c # scan ob ins n cs')"
        using False by (cases cs') auto
      have IH: "render (p @ [c]) cs' =
          scan (even (count_out backtick (p @ [c]))) (in_literal (p @ [c]))
               (Suc (count_out qmark (p @ [c]))) cs'"
        using less.hyps [of cs' _ "p @ [c]"] Cons by simp
      show ?thesis
        unfolding Cons step render.simps IH
        using less.prems
        by (simp add: piece_def count_out_snoc in_literal_snoc)
    qed
  qed
qed

lemma render_index:
  "render p cs = concat (map (\<lambda>j. piece (take j (p @ cs)) ((p @ cs) ! j))
                             [length p..<length p + length cs])"
proof (induction cs arbitrary: p)
  case Nil
  then show ?case by simp
next
  case (Cons c cs)
  have "[length p..<length p + length (c # cs)] = length p # [Suc (length p)..<Suc (length p) + length cs]"
    using upt_conv_Cons [of "length p" "length p + length (c # cs)"] by simp
  with Cons [of "p @ [c]"] show ?case
    by simp
qed

lemma filter_ranks:
  "map (\<lambda>j. length (filter P [0..<j])) (filter P [0..<n]) = [0..<length (filter P [0..<n])]"
  by (induction n) auto

lemma count_out_take:
  assumes "j \<le> length q"
  shows "count_out x (take j q) = length (filter (\<lambda>k. q ! k = x \<and> \<not> in_literal (take k q)) [0..<j])"
proof -
  have len: "length (take j q) = j"
    using assms by simp
  have "filter (\<lambda>k. take j q ! k = x \<and> \<not> in_literal (take k (take j q))) [0..<j]
        = filter (\<lambda>k. q ! k = x \<and> \<not> in_literal (take k q)) [0..<j]"
    by (rule filter_cong) (auto simp: min_def)
  then show ?thesis
    unfolding count_out_def outside_positions_def len by simp
qed

lemma outside_ranks:
  "map (\<lambda>j. count_out x (take j q)) (outside_positions x q) = [0..<count_out x q]"
proof -
  have "map (\<lambda>j. count_out x (take j q)) (outside_positions x q)
        = map (\<lambda>j. length (filter (\<lambda>k. q ! k = x \<and> \<not> in_literal (take k q)) [0..<j]))
              (outside_positions x q)"
    by (rule map_cong) (auto simp: outside_positions_def count_out_take)
  then show ?thesis
    by (simp add: outside_positions_def count_out_def filter_ranks)
qed

lemma piece_outside_qmark:
  "j \<in> set (outside_positions qmark q) \<Longrightarrow>
   piece (take j q) (q ! j) = ''@p'' @ Itoa (Suc (count_out qmark (take j q)))"
  by (simp add: outside_positions_def piece_def)

lemma placeholders_in_order:
  "map (\<lambda>j. piece (take j q) (q ! j)) (outside_positions qmark q)
   = map (\<lambda>k. ''@p'' @ Itoa k) [1..<Suc (count_out qmark q)]"
proof -
  have "map (\<lambda>j. piece (take j q) (q ! j)) (outside_positions qmark q)
        = map (\<lambda>j. ''@p'' @ Itoa (Suc (count_out qmark (take j q)))) (outside_positions qmark q)"
    by (rule map_cong) (simp_all add: piece_outside_qmark)
  also have "\<dots> = map (\<lambda>k. ''@p'' @ Itoa (Suc k)) (map (\<lambda>j. count_out qmark (take j q)) (outside_positions qmark q))"
    by (simp add: comp_def)
  also have "\<dots> = map (\<lambda>k. ''@p'' @ Itoa (Suc k)) [0..<count_out qmark q]"
    by (simp only: outside_ranks)
  also have "\<dots> = map (\<lambda>k. ''@p'' @ Itoa k) (map Suc [0..<count_out qmark q])"
    by (simp add: comp_def)
  also have "map Suc [0..<count_out qmark q] = [1..<Suc (count_out qmark q)]"
    by (simp add: map_Suc_upt)
  finally show ?thesis .
qed









lemma translate_render: "translate q = render [] q"
  using scan_render [of True "[]" False 1 q]
  by (simp add: translate_scan count_out_def outside_positions_def in_literal_def quotes_def)

lemma render_snoc: "render p (xs @ [c]) = render p xs @ piece (p @ xs) c"
  by (induction xs arbitrary: p) simp_all

text \<open>
  What the scanner knows at the start of each iteration, in the specification's terms:
  the flag is on exactly when an odd number of quotes has been read, the bracket toggle
  and the counter count the back-ticks and the \<^verbatim>\<open>?\<close> read outside literals, and
  the builder holds the pieces of the bytes read. The loop ends at the end of the
  statement.
\<close>

lemma scanner_invariant:
  assumes "reachable query s"
  shows "i s \<le> length query \<and>
         inString s = in_literal (take (i s) query) \<and>
         openBracket s = even (count_out backtick (take (i s) query)) \<and>
         paramIndex s = Suc (count_out qmark (take (i s) query)) \<and>
         b s = render [] (take (i s) query)"
  using assms
proof (induction rule: reachable.induct)
  case reach_init
  show ?case
    by (simp add: init_def in_literal_def quotes_def count_out_def outside_positions_def)
next
  case (reach_body s)
  define p where "p = take (i s) query"
  have one: "take (i s + 1) query = p @ [query ! i s]"
    using reach_body.hyps(2) by (simp add: p_def take_Suc_conv_app_nth)
  have inv: "inString s = in_literal p" "openBracket s = even (count_out backtick p)"
    "paramIndex s = Suc (count_out qmark p)" "b s = render [] p"
    using reach_body.IH by (simp_all add: p_def)
  show ?case
  proof (cases "query ! i s = squote \<and> inString s \<and> i s + 1 < length query \<and> query ! (i s + 1) = squote")
    case True
    define p2 where "p2 = (p @ [squote]) @ [squote]"
    have two: "take (Suc (Suc (i s))) query = p2"
      using True one take_Suc_conv_app_nth [of "i s + 1" query] by (simp add: p2_def)
    have st: "body query s = s\<lparr>b := b s @ [squote, squote], i := Suc (Suc (i s))\<rparr>"
      using True by (simp add: body_def Let_def WriteByte_def next_i_def)
    have "in_literal p2 = in_literal p" "count_out backtick p2 = count_out backtick p"
      "count_out qmark p2 = count_out qmark p"
      unfolding p2_def by (simp_all only: in_literal_snoc count_out_snoc) simp_all
    moreover have "render [] p2 = render [] p @ [squote, squote]"
      unfolding p2_def by (simp only: render_snoc) (simp add: piece_def)
    ultimately show ?thesis
      using True inv unfolding st by (simp add: two)
  next
    case False
    have le: "i s + 1 \<le> length query"
      using reach_body.hyps(2) by simp
    have st: "i (body query s) = i s + 1"
      using False by (auto simp: body_def Let_def WriteByte_def WriteString_def next_i_def)
    have r: "render [] (p @ [query ! i s]) = render [] p @ piece p (query ! i s)"
      by (simp add: render_snoc)
    show ?thesis
      unfolding st one
      using False inv le r
      by (auto simp: body_def Let_def WriteByte_def WriteString_def next_i_def
            count_out_snoc in_literal_snoc piece_def)
  qed
qed

lemma count_out_le: "count_out x p \<le> length p"
proof -
  have "length (outside_positions x p) \<le> length [0..<length p]"
    unfolding outside_positions_def by (rule length_filter_le)
  then show ?thesis
    by (simp add: count_out_def)
qed

text \<open>The counter never exceeds the length of the statement by more than one.\<close>

lemma paramIndex_bound:
  assumes "reachable query s"
  shows "paramIndex s \<le> Suc (length query)"
proof -
  have "paramIndex s = Suc (count_out qmark (take (i s) query))"
    using scanner_invariant [OF assms] by simp
  also have "\<dots> \<le> Suc (length (take (i s) query))"
    using count_out_le [of qmark "take (i s) query"] by simp
  also have "\<dots> \<le> Suc (length query)"
    by simp
  finally show ?thesis .
qed

lemma loop_reachable:
  "reachable query s \<Longrightarrow> reachable query (loop query s) \<and> length query \<le> i (loop query s)"
proof (induction query s rule: loop.induct)
  case (1 query s)
  show ?case
  proof (cases "i s < length query")
    case True
    then have "reachable query (body query s)"
      using "1.prems" by (rule reach_body [rotated])
    with "1.IH" [OF True] show ?thesis
      using True by (simp add: loop.simps [of query s])
  next
    case False
    with "1.prems" show ?thesis
      by (simp add: loop.simps [of query s])
  qed
qed


text \<open>
  \<^bold>\<open>Claim C1.\<close> The output of \<open>translate\<close> is the input with every byte replaced
  by its piece, position by position. The pieces of the \<^verbatim>\<open>?\<close> that stand outside
  string literals, read left to right, are \<^verbatim>\<open>@p1\<close>, \<^verbatim>\<open>@p2\<close>, ... up to
  \<^verbatim>\<open>@pk\<close>, where \<open>k\<close> is the number of such occurrences; the piece of a \<^verbatim>\<open>?\<close>
  inside a literal is the \<^verbatim>\<open>?\<close> itself.
\<close>

theorem placeholders_ordinal:
  "translate q = concat (map (\<lambda>j. piece (take j q) (q ! j)) [0..<length q]) \<and>
   map (\<lambda>j. piece (take j q) (q ! j)) (outside_positions qmark q)
     = map (\<lambda>k. ''@p'' @ Itoa k) [1..<Suc (count_out qmark q)] \<and>
   (\<forall>j<length q. q ! j = qmark \<and> in_literal (take j q) \<longrightarrow> piece (take j q) (q ! j) = [qmark])"
proof (intro conjI allI impI)
  show "translate q = concat (map (\<lambda>j. piece (take j q) (q ! j)) [0..<length q])"
    using render_index [of "[]" q] by (simp add: translate_render)
next
  show "map (\<lambda>j. piece (take j q) (q ! j)) (outside_positions qmark q)
     = map (\<lambda>k. ''@p'' @ Itoa k) [1..<Suc (count_out qmark q)]"
    by (rule placeholders_in_order)
next
  fix j
  assume "q ! j = qmark \<and> in_literal (take j q)"
  then show "piece (take j q) (q ! j) = [qmark]"
    by (simp add: piece_def)
qed

text \<open>
  The statement \<^verbatim>\<open>SELECT 'a?b', ?, ?\<close>: the \<^verbatim>\<open>?\<close> at position 9 is inside the
  literal and stays, the two at positions 14 and 17 become \<^verbatim>\<open>@p1\<close> and \<^verbatim>\<open>@p2\<close>.
\<close>

theorem placeholders_ordinal_witness:
  "translate (''SELECT '' @ [squote] @ ''a?b'' @ [squote] @ '', ?, ?'')
     = ''SELECT '' @ [squote] @ ''a?b'' @ [squote] @ '', @p1, @p2'' \<and>
   outside_positions qmark (''SELECT '' @ [squote] @ ''a?b'' @ [squote] @ '', ?, ?'') = [14, 17] \<and>
   piece (take 9 (''SELECT '' @ [squote] @ ''a?b'' @ [squote] @ '', ?, ?''))
         ((''SELECT '' @ [squote] @ ''a?b'' @ [squote] @ '', ?, ?'') ! 9) = [qmark]"
proof -
  let ?q = "''SELECT '' @ [squote] @ ''a?b'' @ [squote] @ '', ?, ?''"
  have spec: "concat (map (\<lambda>j. piece (take j ?q) (?q ! j)) [0..<length ?q])
              = ''SELECT '' @ [squote] @ ''a?b'' @ [squote] @ '', @p1, @p2''"
    by code_simp
  have pos: "outside_positions qmark ?q = [14, 17]"
    by code_simp
  have inside: "9 < length ?q \<and> ?q ! 9 = qmark \<and> in_literal (take 9 ?q)"
    by code_simp
  have "translate ?q = concat (map (\<lambda>j. piece (take j ?q) (?q ! j)) [0..<length ?q])"
    using placeholders_ordinal [of ?q] by (rule conjunct1)
  moreover have "piece (take 9 ?q) (?q ! 9) = [qmark]"
    using placeholders_ordinal [of ?q] inside by blast
  ultimately show ?thesis
    using spec pos by simp
qed

text \<open>
  \<^bold>\<open>Claim C2\<close> as stated makes the doubled quote an escape wherever the scanner reads
  a quote. The source tests the following byte only under \<^verbatim>\<open>if inString\<close>: at the
  start of \<^verbatim>\<open>''\<close> the scanner is outside a literal, writes one quote, turns the flag
  on and advances by one; the second quote then closes the literal, so the \<^verbatim>\<open>?\<close>
  after \<^verbatim>\<open>''\<close> is a placeholder.
\<close>

theorem escaped_quote_counterexample:
  "b (body [squote, squote] init) = [squote] \<and>
   i (body [squote, squote] init) = 1 \<and>
   inString (body [squote, squote] init) \<and>
   translate ([squote, squote] @ ''?'') = [squote, squote] @ ''@p1''"
  by code_simp

text \<open>
  \<^bold>\<open>Claim C2, amended.\<close> At a position where the scanner reads a single quote: if it
  is inside a literal and the next byte is a quote too, both quotes are written, the
  index moves past both and the flag stays on; in every other case one quote is
  written, the flag is toggled and the index moves by one. Nothing else of the state
  changes.
\<close>

theorem quote_step:
  assumes "i s < length query" and "query ! i s = squote"
  shows "body query s =
     (if inString s \<and> i s + 1 < length query \<and> query ! (i s + 1) = squote
      then s\<lparr>b := b s @ [squote, squote], i := i s + 2\<rparr>
      else s\<lparr>b := b s @ [squote], inString := \<not> inString s, i := i s + 1\<rparr>)"
  using assms by (simp add: body_def Let_def WriteByte_def next_i_def)

text \<open>
  In \<^verbatim>\<open>'''\<close> the second iteration starts inside the literal at a doubled quote; in
  \<^verbatim>\<open>'a\<close> the first iteration opens the literal.
\<close>

theorem quote_step_witness:
  "body [squote, squote, squote] (body [squote, squote, squote] init)
     = \<lparr>b = [squote, squote, squote], openBracket = True, inString = True, paramIndex = 1, i = 3\<rparr> \<and>
   body [squote, CHR ''a''] init
     = \<lparr>b = [squote], openBracket = True, inString = True, paramIndex = 1, i = 1\<rparr>"
  using quote_step [of "body [squote, squote, squote] init" "[squote, squote, squote]"]
        quote_step [of init "[squote, CHR ''a'']"]
  by (simp add: body_def init_def Let_def WriteByte_def next_i_def)





section \<open>Properties of the library functions\<close>

lemma length_ToLower: "length (ToLower s) = length s"
  by (simp add: ToLower_def)

lemma ToLower_append: "ToLower (x @ y) = ToLower x @ ToLower y"
  by (simp add: ToLower_def)

lemma ToLower_take: "ToLower (take n s) = take n (ToLower s)"
  by (simp add: ToLower_def take_map)

lemma ToLower_drop: "ToLower (drop n s) = drop n (ToLower s)"
  by (simp add: ToLower_def drop_map)

lemma HasPrefix_append: "HasPrefix (p @ s) p"
  by (simp add: HasPrefix_def)

lemma HasPrefix_iff: "HasPrefix s p \<longleftrightarrow> (\<exists>t. s = p @ t)"
proof
  assume "HasPrefix s p"
  then have "s = p @ drop (length p) s"
    by (metis HasPrefix_def append_take_drop_id)
  then show "\<exists>t. s = p @ t" ..
next
  assume "\<exists>t. s = p @ t"
  then show "HasPrefix s p"
    by (auto simp: HasPrefix_def)
qed

lemma Index_Some_occurrence:
  "Index s sub = Some k \<Longrightarrow> HasPrefix (drop k s) sub \<and> k + length sub \<le> length s"
proof (induction s arbitrary: k)
  case Nil
  then show ?case by (auto simp: HasPrefix_def split: if_splits)
next
  case (Cons c cs)
  show ?case
  proof (cases "HasPrefix (c # cs) sub")
    case True
    with Cons.prems show ?thesis by (auto simp: HasPrefix_def)
  next
    case False
    with Cons.prems obtain k' where "Index cs sub = Some k'" "k = Suc k'"
      by auto
    with Cons.IH show ?thesis by auto
  qed
qed

lemma Index_first:
  "Index s sub = Some k \<Longrightarrow> j < k \<Longrightarrow> \<not> HasPrefix (drop j s) sub"
proof (induction s arbitrary: k j)
  case Nil
  then show ?case by (auto split: if_splits)
next
  case (Cons c cs)
  show ?case
  proof (cases "HasPrefix (c # cs) sub")
    case True
    with Cons.prems show ?thesis by simp
  next
    case False
    with Cons.prems obtain k' where k': "Index cs sub = Some k'" "k = Suc k'"
      by auto
    show ?thesis
    proof (cases j)
      case 0
      with False show ?thesis by simp
    next
      case (Suc j')
      with Cons.IH [OF k'(1), of j'] Cons.prems k' show ?thesis by simp
    qed
  qed
qed

lemma Index_None:
  "Index s sub = None \<Longrightarrow> \<not> HasPrefix (drop j s) sub"
proof (induction s arbitrary: j)
  case Nil
  then show ?case by (auto simp: HasPrefix_def split: if_splits)
next
  case (Cons c cs)
  then show ?case
    by (cases j) (auto split: if_splits)
qed



lemma Index_at:
  assumes "HasPrefix (drop k s) sub" and "k + length sub \<le> length s"
    and "\<forall>j<k. \<not> HasPrefix (drop j s) sub"
  shows "Index s sub = Some k"
proof (cases "Index s sub")
  case None
  with assms(1) Index_None show ?thesis by blast
next
  case (Some k')
  have "\<not> k' < k"
    using Index_Some_occurrence [OF Some] assms(3) by blast
  moreover have "\<not> k < k'"
    using Index_first [OF Some] assms(1) by blast
  ultimately show ?thesis
    using Some by simp
qed


lemma TrimSpace_core:
  assumes "\<forall>c \<in> set ws. asciiSpace c" and "\<not> asciiSpace c" and "\<not> asciiSpace d"
  shows "TrimSpace (ws @ c # m @ d # t) = c # m @ d # rev (dropWhile asciiSpace (rev t))"
proof -
  have "dropWhile asciiSpace (ws @ c # m @ d # t) = c # m @ d # t"
    using assms(1,2) by (simp add: dropWhile_append2)
  moreover have "dropWhile asciiSpace (rev t @ d # rev m @ [c]) = dropWhile asciiSpace (rev t) @ d # rev m @ [c]"
    using assms(3) by (rule dropWhile_append3)
  ultimately show ?thesis
    by (simp add: TrimSpace_def)
qed



section \<open>Properties of the limit/offset rewriter\<close>











































section \<open>Properties of the output-clause injector\<close>

lemma injector_index_in_range:
  assumes "Index (ToLower (TrimSpace q)) sub = Some idx"
  shows "idx \<le> length q"
proof -
  have "idx + length sub \<le> length (ToLower (TrimSpace q))"
    using Index_Some_occurrence [OF assms] by simp
  moreover have "length (TrimSpace q) \<le> length q"
    unfolding TrimSpace_def
    using length_dropWhile_le [of asciiSpace "rev (dropWhile asciiSpace q)"]
          length_dropWhile_le [of asciiSpace q]
    by simp
  ultimately show ?thesis
    by (simp add: length_ToLower)
qed

lemma injector_keeps_ascii:
  assumes "isASCII q"
  shows "isASCII (maybeAddOutputClause q)"
proof -
  have "isASCII (take idx q @ '' OUTPUT INSERTED.[id]'' @ drop idx q)" for idx
  proof -
    have "set (take idx q) \<subseteq> set q" "set (drop idx q) \<subseteq> set q"
      by (rule set_take_subset, rule set_drop_subset)
    moreover have "isASCII '' OUTPUT INSERTED.[id]''"
      by code_simp
    ultimately show ?thesis
      using assms unfolding isASCII_def by auto
  qed
  then show ?thesis
    using assms by (simp add: maybeAddOutputClause_def Let_def split: option.splits)
qed




lemma lowerByte_asciiSpace: "asciiSpace c \<Longrightarrow> lowerByte c = c"
  by (auto simp: asciiSpace_def lowerByte_def)

lemma Index_trailing:
  assumes "sub \<noteq> []" and "last sub \<notin> set post"
  shows "Index (t @ post) sub = Index t sub"
proof (induction t)
  case Nil
  have "Index post sub = None"
  proof (rule ccontr)
    assume "Index post sub \<noteq> None"
    then obtain j where "Index post sub = Some j" by auto
    from Index_Some_occurrence [OF this] obtain u where "drop j post = sub @ u"
      by (auto simp: HasPrefix_iff)
    then have "set sub \<subseteq> set (drop j post)"
      by simp
    then have "last sub \<in> set post"
      using assms(1) last_in_set [of sub] set_drop_subset [of j post] by blast
    with assms(2) show False ..
  qed
  then show ?case
    using assms(1) by simp
next
  case (Cons c t)
  have "HasPrefix (c # t @ post) sub \<longleftrightarrow> HasPrefix (c # t) sub"
  proof
    assume "HasPrefix (c # t) sub"
    then obtain u where "c # t = sub @ u"
      by (auto simp: HasPrefix_iff)
    then have "c # t @ post = sub @ (u @ post)"
      by (metis append_Cons append_assoc)
    then show "HasPrefix (c # t @ post) sub"
      unfolding HasPrefix_iff by blast
  next
    assume "HasPrefix (c # t @ post) sub"
    then obtain u where u: "(c # t) @ post = sub @ u"
      by (auto simp: HasPrefix_iff)
    then have "\<exists>us. c # t = sub @ us \<and> us @ post = u \<or> (c # t) @ us = sub \<and> post = us @ u"
      by (simp only: append_eq_append_conv2)
    then obtain us where us: "c # t = sub @ us \<or> ((c # t) @ us = sub \<and> post = us @ u)"
      by blast
    show "HasPrefix (c # t) sub"
    proof (cases "us = []")
      case True
      with us show ?thesis by (auto simp: HasPrefix_iff)
    next
      case False
      show ?thesis
      proof (rule ccontr)
        assume n: "\<not> HasPrefix (c # t) sub"
        with us have "(c # t) @ us = sub" "post = us @ u"
          by (auto simp: HasPrefix_iff)
        then have "last sub = last us" "last us \<in> set post"
          using False by auto
        with assms(2) show False by simp
      qed
    qed
  qed
  with Cons show ?case by simp
qed

lemma TrimSpace_keeps:
  assumes "\<not> asciiSpace c" and "\<not> asciiSpace d"
  shows "\<exists>post. list_all asciiSpace post \<and> (c # m @ d # rest) = TrimSpace (c # m @ d # rest) @ post \<and>
           TrimSpace (c # m @ d # rest) = c # m @ d # rev (dropWhile asciiSpace (rev rest))"
proof -
  have "TrimSpace ([] @ c # m @ d # rest) = c # m @ d # rev (dropWhile asciiSpace (rev rest))"
    using assms by (intro TrimSpace_core) simp_all
  moreover have "rest = rev (dropWhile asciiSpace (rev rest)) @ rev (takeWhile asciiSpace (rev rest))"
    by (metis rev_append rev_rev_ident takeWhile_dropWhile_id)
  moreover have "list_all asciiSpace (rev (takeWhile asciiSpace (rev rest)))"
    by (auto simp: list_all_iff dest: set_takeWhileD)
  ultimately show ?thesis
    by (intro exI [of _ "rev (takeWhile asciiSpace (rev rest))"]) simp
qed

lemma insert_into_bytes:
  assumes "HasPrefix (ToLower q) ''insert into''"
  obtains p c m d rest where "q = p @ rest" and "p = c # m @ [d]"
    and "ToLower p = ''insert into''" and "\<not> asciiSpace c" and "\<not> asciiSpace d"
proof -
  define p where "p = take (length ''insert into'') q"
  have lo: "ToLower p = ''insert into''"
    using assms unfolding p_def ToLower_take HasPrefix_def by blast
  then have lp: "length p = length ''insert into''"
    using length_ToLower [of p] by simp
  then have ne: "p \<noteq> []" "tl p \<noteq> []"
    by (cases p; cases "tl p"; simp)+
  have "lowerByte (hd p) = hd (ToLower p)" "lowerByte (last p) = last (ToLower p)"
    using ne by (simp_all add: ToLower_def hd_map last_map)
  then have l: "lowerByte (hd p) = CHR ''i''" "lowerByte (last p) = CHR ''o''"
    by (simp_all add: lo)
  have sp: "\<not> asciiSpace (hd p)" "\<not> asciiSpace (last p)"
    using l lowerByte_asciiSpace [of "hd p"] lowerByte_asciiSpace [of "last p"]
    by (auto simp: asciiSpace_def)
  have "p = hd p # butlast (tl p) @ [last (tl p)]"
    using ne by simp
  moreover have "last (tl p) = last p"
    using ne by (metis last_tl)
  ultimately have "p = hd p # butlast (tl p) @ [last p]"
    by simp
  moreover have "q = p @ drop (length ''insert into'') q"
    by (simp add: p_def)
  ultimately show ?thesis
    using lo sp by (intro that [of p "drop (length ''insert into'') q" "hd p" "butlast (tl p)" "last p"])
qed

lemma s_not_in_spaces: "list_all asciiSpace post \<Longrightarrow> CHR ''s'' \<notin> set post"
proof
  assume "list_all asciiSpace post" "CHR ''s'' \<in> set post"
  then have "asciiSpace (CHR ''s'')"
    by (simp add: list_all_iff)
  then show False
    by (simp add: asciiSpace_def)
qed

lemma ToLower_spaces: "list_all asciiSpace post \<Longrightarrow> ToLower post = post"
  using lowerByte_asciiSpace by (simp add: ToLower_def list_all_iff map_idI)

lemma Index_values_trailing:
  assumes "list_all asciiSpace post"
  shows "Index (ToLower t @ ToLower post) '' values'' = Index (ToLower t) '' values''"
proof (rule Index_trailing)
  show "'' values'' \<noteq> []" by simp
  show "last '' values'' \<notin> set (ToLower post)"
    using s_not_in_spaces [OF assms] ToLower_spaces [OF assms] by simp
qed


lemma insert_trimmed:
  assumes "HasPrefix (ToLower q) ''insert into''"
  shows "HasPrefix (ToLower (TrimSpace q)) ''insert into'' \<and>
         Index (ToLower (TrimSpace q)) '' values'' = Index (ToLower q) '' values''"
proof -
  obtain p c m d rest
    where q: "q = p @ rest" and p: "p = c # m @ [d]" and lo: "ToLower p = ''insert into''"
      and c: "\<not> asciiSpace c" and d: "\<not> asciiSpace d"
    by (rule insert_into_bytes [OF assms])
  have q': "q = c # m @ d # rest"
    using q p by simp
  from TrimSpace_keeps [OF c d, of m rest] obtain post
    where post: "list_all asciiSpace post" and split: "q = TrimSpace q @ post"
      and tr: "TrimSpace q = c # m @ d # rev (dropWhile asciiSpace (rev rest))"
    unfolding q' by blast
  have "ToLower q = ToLower (TrimSpace q @ post)"
    using split by simp
  then have low: "ToLower q = ToLower (TrimSpace q) @ ToLower post"
    by (simp only: ToLower_append)
  have idx: "Index (ToLower q) '' values'' = Index (ToLower (TrimSpace q)) '' values''"
    unfolding low using post by (rule Index_values_trailing)
  have "TrimSpace q = p @ rev (dropWhile asciiSpace (rev rest))"
    using tr p by simp
  then have "ToLower (TrimSpace q) = ''insert into'' @ ToLower (rev (dropWhile asciiSpace (rev rest)))"
    by (simp only: ToLower_append lo)
  then have "HasPrefix (ToLower (TrimSpace q)) ''insert into''"
    unfolding HasPrefix_iff by blast
  with idx show ?thesis
    by simp
qed

text \<open>
  Without leading white space the index is right: for a statement that itself begins
  with \<^verbatim>\<open>insert into\<close>, in any mix of cases, and has no \<^verbatim>\<open> output \<close>, the clause
  is inserted right before the first \<^verbatim>\<open> values\<close>, and the statement comes back
  unchanged when there is none.
\<close>

lemma output_clause_before_values:
  assumes "isASCII q" and "HasPrefix (ToLower q) ''insert into''"
    and "\<not> Contains (ToLower (TrimSpace q)) '' output ''"
  shows "maybeAddOutputClause q =
           (case Index (ToLower q) '' values'' of
              None \<Rightarrow> q
            | Some idx \<Rightarrow> take idx q @ '' OUTPUT INSERTED.[id]'' @ drop idx q)"
  using assms(3) insert_trimmed [OF assms(2)]
  by (simp add: maybeAddOutputClause_def Let_def)

lemma TrimSpace_leading:
  assumes "list_all asciiSpace ws"
  shows "TrimSpace (ws @ q) = TrimSpace q"
proof -
  have "dropWhile asciiSpace (ws @ q) = dropWhile asciiSpace q"
    using assms by (intro dropWhile_append2) (simp add: list_all_iff)
  then show ?thesis
    by (simp add: TrimSpace_def)
qed

text \<open>
  With leading white space in front of such a statement the clause goes to the same
  index of the longer text, that is, as many bytes before \<^verbatim>\<open> VALUES\<close> as there are
  bytes of white space.
\<close>

lemma leading_space_shifts_clause:
  assumes "isASCII q" and "list_all asciiSpace ws"
    and "HasPrefix (ToLower q) ''insert into''"
    and "\<not> Contains (ToLower (TrimSpace q)) '' output ''"
    and "Index (ToLower q) '' values'' = Some idx"
  shows "maybeAddOutputClause (ws @ q)
           = take idx (ws @ q) @ '' OUTPUT INSERTED.[id]'' @ drop idx (ws @ q)"
  using assms(4,5) insert_trimmed [OF assms(3)] TrimSpace_leading [OF assms(2), of q]
  by (simp add: maybeAddOutputClause_def Let_def)



text \<open>
  \<^bold>\<open>Claim C3.\<close> The statement \<^verbatim>\<open> INSERT INTO t (a) VALUES (1)\<close>, with one leading
  space, passes the test on the trimmed text and has no \<^verbatim>\<open> output \<close>; the claim
  wants the clause right before \<^verbatim>\<open> VALUES\<close>. The index of \<^verbatim>\<open> values\<close> is taken in
  the trimmed text and used in the untrimmed one, so the clause lands one byte early,
  inside the column list.
\<close>

theorem leading_space_misplaces_output:
  "maybeAddOutputClause '' INSERT INTO t (a) VALUES (1)''
     = '' INSERT INTO t (a OUTPUT INSERTED.[id]) VALUES (1)''"
  by code_simp

lemma output_clause_before_values_examples:
  "maybeAddOutputClause ''INSERT INTO t (a) VALUES (1)'' = ''INSERT INTO t (a) OUTPUT INSERTED.[id] VALUES (1)'' \<and>
   maybeAddOutputClause ''insert into t default values'' = ''insert into t default OUTPUT INSERTED.[id] values'' \<and>
   maybeAddOutputClause ''INSERT INTO t SELECT 1'' = ''INSERT INTO t SELECT 1''"
proof (intro conjI)
  let ?q = "''INSERT INTO t (a) VALUES (1)''"
  have "isASCII ?q" and "HasPrefix (ToLower ?q) ''insert into''"
    and "\<not> Contains (ToLower (TrimSpace ?q)) '' output ''"
    by code_simp+
  then have "maybeAddOutputClause ?q =
           (case Index (ToLower ?q) '' values'' of
              None \<Rightarrow> ?q
            | Some idx \<Rightarrow> take idx ?q @ '' OUTPUT INSERTED.[id]'' @ drop idx ?q)"
    by (rule output_clause_before_values)
  also have "\<dots> = ''INSERT INTO t (a) OUTPUT INSERTED.[id] VALUES (1)''"
    by code_simp
  finally show "maybeAddOutputClause ?q = ''INSERT INTO t (a) OUTPUT INSERTED.[id] VALUES (1)''" .
next
  let ?q = "''insert into t default values''"
  have "isASCII ?q" and "HasPrefix (ToLower ?q) ''insert into''"
    and "\<not> Contains (ToLower (TrimSpace ?q)) '' output ''"
    by code_simp+
  then have "maybeAddOutputClause ?q =
           (case Index (ToLower ?q) '' values'' of
              None \<Rightarrow> ?q
            | Some idx \<Rightarrow> take idx ?q @ '' OUTPUT INSERTED.[id]'' @ drop idx ?q)"
    by (rule output_clause_before_values)
  also have "\<dots> = ''insert into t default OUTPUT INSERTED.[id] values''"
    by code_simp
  finally show "maybeAddOutputClause ?q = ''insert into t default OUTPUT INSERTED.[id] values''" .
next
  let ?q = "''INSERT INTO t SELECT 1''"
  have "isASCII ?q" and "HasPrefix (ToLower ?q) ''insert into''"
    and "\<not> Contains (ToLower (TrimSpace ?q)) '' output ''"
    by code_simp+
  then have "maybeAddOutputClause ?q =
           (case Index (ToLower ?q) '' values'' of
              None \<Rightarrow> ?q
            | Some idx \<Rightarrow> take idx ?q @ '' OUTPUT INSERTED.[id]'' @ drop idx ?q)"
    by (rule output_clause_before_values)
  also have "\<dots> = ?q"
    by code_simp
  finally show "maybeAddOutputClause ?q = ?q" .
qed

section \<open>Properties of the wrappers\<close>

text \<open>
  \<^bold>\<open>Claim C8.\<close> Whatever the operation (the driver's \<^verbatim>\<open>Exec\<close>, \<^verbatim>\<open>ExecContext\<close>,
  \<^verbatim>\<open>Query\<close>, \<^verbatim>\<open>QueryContext\<close>, the transaction's \<^verbatim>\<open>Exec\<close> and
  \<^verbatim>\<open>Query\<close>) and whichever optional interface the wrapped driver has, the call that
  reaches the wrapped object carries the caller's argument list itself, same elements
  in the same order; the statement text is the only thing rewritten, by the
  translator and the limit rewriter, and by the injector too on the query paths.
\<close>

theorem arguments_forwarded:
  "args_sent (forwarded W op target query args v) = args \<and>
   text_sent (forwarded W op target query args v)
     = (if output_path op then maybeAddOutputClause (transformLimitQuery (translate query))
        else transformLimitQuery (translate query))"
  by (cases op)
     (simp_all add: forwarded_def output_path_def quoteFixDriver_Exec_def
        quoteFixDriver_ExecContext_def quoteFixDriver_Query_def quoteFixDriver_QueryContext_def
        quoteFixTx_Exec_def quoteFixTx_Query_def Let_def)

text \<open>
  \<^bold>\<open>Claim C7.\<close> When the lower-cased dialect label of the driver is neither
  \<^verbatim>\<open>mssql\<close> nor \<^verbatim>\<open>sqlserver\<close>, the constructor returns the reference it was
  given and the heap it was given: nothing is allocated. The label is read there and
  nowhere else: what a wrapper forwards is the same whatever the wrapped driver would
  answer to \<^verbatim>\<open>Dialect()\<close> at the time of the call.

  The two aliases are ASCII, and no rune outside ASCII lower-cases to one of their
  letters, so the byte-wise \<open>ToLower\<close> decides this comparison as Go's does for every
  label.
\<close>

theorem pass_through:
  assumes "ToLower (Dialect W r) \<noteq> ''mssql''" and "ToLower (Dialect W r) \<noteq> ''sqlserver''"
  shows "newQuoteFixDriver W (Some r) h = (h, Some r) \<and>
         forwarded (W\<lparr>Dialect := f\<rparr>) op target query args v = forwarded W op target query args v"
  using assms
  by (cases op)
     (simp_all add: newQuoteFixDriver_def forwarded_def quoteFixDriver_ExecContext_def
        quoteFixDriver_QueryContext_def)

text \<open>
  A driver at address 7 that reports \<^verbatim>\<open>MySQL\<close>.
\<close>

theorem pass_through_witness:
  "newQuoteFixDriver
     \<lparr>Dialect = (\<lambda>_. ''MySQL''), implementsExecContext = (\<lambda>_. True), implementsQueryContext = (\<lambda>_. False)\<rparr>
     (Some 7) \<lparr>objects = Map.empty, fresh = 8\<rparr>
   = (\<lparr>objects = Map.empty, fresh = 8\<rparr>, Some 7)"
proof -
  let ?W = "\<lparr>Dialect = (\<lambda>_. ''MySQL''), implementsExecContext = (\<lambda>_. True), implementsQueryContext = (\<lambda>_. False)\<rparr>"
  have "ToLower (Dialect ?W 7) = ''mysql''"
    by code_simp
  then have n1: "ToLower (Dialect ?W 7) \<noteq> ''mssql''" and n2: "ToLower (Dialect ?W 7) \<noteq> ''sqlserver''"
    by simp_all
  show ?thesis
    by (rule pass_through [OF n1 n2, THEN conjunct1])
qed

text \<open>
  For the two aliases the constructor allocates a wrapper around the driver.
\<close>

lemma wrap_target:
  "ToLower (Dialect W r) = ''mssql'' \<or> ToLower (Dialect W r) = ''sqlserver'' \<Longrightarrow>
   newQuoteFixDriver W (Some r) h
     = (h\<lparr>objects := (objects h)(fresh h \<mapsto> QuoteFixDriver r), fresh := fresh h + 1\<rparr>, Some (fresh h))"
  by (auto simp: newQuoteFixDriver_def new_def)

end
